theory Spec2Isabelle
  imports Main "HOL-Library.Sublist"
begin

section \<open>Secure command execution (jarvis/core/system.py)\<close>

text \<open>
  Strings are lists of characters. Every character the code treats specially is ASCII, so
  one \<^typ>\<open>char\<close> per code unit is enough. Three library calls of the code are written
  out as functions: \<^verbatim>\<open>shlex.split\<close>, \<^verbatim>\<open>pathlib.Path\<close> (its \<^verbatim>\<open>name\<close> and
  \<^verbatim>\<open>str\<close>) and \<^verbatim>\<open>re.search\<close> on the five patterns the code uses.
\<close>

subsection \<open>Exceptions\<close>

datatype exn =
    SecurityViolation string
  | ValueError string
  | OtherError string

fun str_exn :: "exn \<Rightarrow> string" where
  "str_exn (SecurityViolation m) = m"
| "str_exn (ValueError m) = m"
| "str_exn (OtherError m) = m"

subsection \<open>shlex.split(command): POSIX mode, whitespace_split, no comment characters\<close>

definition backslash :: char where "backslash = CHR 0x5C"
definition dquote :: char where "dquote = CHR 0x22"
definition squote :: char where "squote = CHR 0x27"

definition whitespace :: "char list" where
  "whitespace = [CHR 0x20, CHR 0x09, CHR 0x0D, CHR 0x0A]"

definition quotes :: "char list" where
  "quotes = [squote, dquote]"

definition escapedquotes :: "char list" where
  "escapedquotes = [dquote]"

text \<open>
  The lexer's \<^verbatim>\<open>state\<close>: \<^verbatim>\<open>' '\<close>, \<^verbatim>\<open>'a'\<close>, a quote character, or the escape
  character together with \<^verbatim>\<open>escapedstate\<close> (the state to go back to: \<open>None\<close> for
  \<^verbatim>\<open>'a'\<close>, \<open>Some q\<close> for the quote \<open>q\<close>).
\<close>

datatype lex_state = InSpace | InWord | InQuote char | InEscape "char option"

definition emit :: "string \<Rightarrow> bool \<Rightarrow> string + string list \<Rightarrow> string + string list" where
  "emit tok quoted rest =
     (case rest of
        Inl e \<Rightarrow> Inl e
      | Inr ts \<Rightarrow> if tok = [] \<and> \<not> quoted then Inr ts else Inr (tok # ts))"

fun read_token :: "lex_state \<Rightarrow> string \<Rightarrow> bool \<Rightarrow> string \<Rightarrow> string + string list" where
  "read_token InSpace tok quoted [] = emit tok quoted (Inr [])"
| "read_token InWord tok quoted [] = emit tok quoted (Inr [])"
| "read_token (InQuote q) tok quoted [] = Inl ''No closing quotation''"
| "read_token (InEscape es) tok quoted [] = Inl ''No escaped character''"
| "read_token InSpace tok quoted (c # cs) =
     (if c \<in> set whitespace then
        (if tok \<noteq> [] \<or> quoted then emit tok quoted (read_token InSpace [] False cs)
         else read_token InSpace tok quoted cs)
      else if c = backslash then read_token (InEscape None) tok quoted cs
      else if c \<in> set quotes then read_token (InQuote c) tok quoted cs
      else read_token InWord [c] quoted cs)"
| "read_token (InQuote q) tok quoted (c # cs) =
     (if c = q then read_token InWord tok True cs
      else if c = backslash \<and> q \<in> set escapedquotes then read_token (InEscape (Some q)) tok True cs
      else read_token (InQuote q) (tok @ [c]) True cs)"
| "read_token (InEscape es) tok quoted (c # cs) =
     (case es of
        None \<Rightarrow> read_token InWord (tok @ [c]) quoted cs
      | Some q \<Rightarrow>
          read_token (InQuote q)
            ((if c \<noteq> backslash \<and> c \<noteq> q then tok @ [backslash] else tok) @ [c]) quoted cs)"
| "read_token InWord tok quoted (c # cs) =
     (if c \<in> set whitespace then
        (if tok \<noteq> [] \<or> quoted then emit tok quoted (read_token InSpace [] False cs)
         else read_token InSpace tok quoted cs)
      else if c \<in> set quotes then read_token (InQuote c) tok quoted cs
      else if c = backslash then read_token (InEscape None) tok quoted cs
      else read_token InWord (tok @ [c]) quoted cs)"

definition shlex_split :: "string \<Rightarrow> exn + string list" where
  "shlex_split s =
     (case read_token InSpace [] False s of
        Inl m \<Rightarrow> Inl (ValueError m)
      | Inr ts \<Rightarrow> Inr ts)"

subsection \<open>pathlib.Path on a POSIX system: name and str\<close>

fun split_sep :: "char \<Rightarrow> string \<Rightarrow> string list" where
  "split_sep sep [] = [[]]"
| "split_sep sep (c # cs) =
     (if c = sep then [] # split_sep sep cs
      else (case split_sep sep cs of
              [] \<Rightarrow> [[c]]
            | p # ps \<Rightarrow> (c # p) # ps))"

fun join_sep :: "char \<Rightarrow> string list \<Rightarrow> string" where
  "join_sep sep [] = []"
| "join_sep sep [p] = p"
| "join_sep sep (p # q # ps) = p @ sep # join_sep sep (q # ps)"

definition splitroot :: "string \<Rightarrow> string \<times> string" where
  "splitroot part =
     (if part \<noteq> [] \<and> hd part = CHR ''/'' then
        (let stripped_part = dropWhile (\<lambda>c. c = CHR ''/'') part
         in if length part - length stripped_part = 2 then (''//'', stripped_part)
            else (''/'', stripped_part))
      else ([], part))"

definition path_tail :: "string \<Rightarrow> string list" where
  "path_tail p = filter (\<lambda>x. x \<noteq> [] \<and> x \<noteq> ''.'') (split_sep (CHR ''/'') (snd (splitroot p)))"

definition path_name :: "string \<Rightarrow> string" where
  "path_name p = (if path_tail p = [] then [] else last (path_tail p))"

definition path_str :: "string \<Rightarrow> string" where
  "path_str p =
     (let root = fst (splitroot p); body = join_sep (CHR ''/'') (path_tail p)
      in if root \<noteq> [] then root @ body
         else if body = [] then ''.'' else body)"

subsection \<open>re.search on the dangerous patterns\<close>

text \<open>
  Each of the five patterns is a sequence of character classes (a literal is a class of one
  character), so a pattern is kept as its source text and the list of its classes.
\<close>

type_synonym pattern = "string \<times> char list list"

fun match_here :: "char list list \<Rightarrow> string \<Rightarrow> bool" where
  "match_here [] s = True"
| "match_here (cl # p) [] = False"
| "match_here (cl # p) (c # s) = (c \<in> set cl \<and> match_here p s)"

fun search_classes :: "char list list \<Rightarrow> string \<Rightarrow> bool" where
  "search_classes p [] = match_here p []"
| "search_classes p (c # s) = (match_here p (c # s) \<or> search_classes p s)"

definition re_search :: "pattern \<Rightarrow> string \<Rightarrow> bool" where
  "re_search pat s = search_classes (snd pat) s"

definition dangerous_patterns :: "pattern list" where
  "dangerous_patterns =
     [ (''[;&|]'', ['';&|'']),
       (''>[>&]'', [''>'', ''>&'']),
       (''<'', [''<'']),
       ([backslash, CHR ''$'', backslash, CHR ''(''], [''$'', ''('']),
       (''`'', [''`'']) ]"

subsection \<open>Security rules\<close>

record config =
  command_blocklist :: "string list option"
  allowed_paths :: "string list option"
  max_runtime :: "int option"

text \<open>
  The code turns the two lists into sets; only membership and \<^verbatim>\<open>any\<close> are used on
  them, which depend on neither order nor repetition, so the rules keep the lists.
\<close>

record rules =
  blocklist :: "string list"
  allowed :: "string list"
  runtime :: int

definition load_security_rules :: "config \<Rightarrow> rules" where
  "load_security_rules cfg =
     \<lparr> blocklist = (case command_blocklist cfg of None \<Rightarrow> [] | Some l \<Rightarrow> l),
       allowed = (case allowed_paths cfg of None \<Rightarrow> [''/tmp''] | Some l \<Rightarrow> l),
       runtime = (case max_runtime cfg of None \<Rightarrow> 300 | Some t \<Rightarrow> t) \<rparr>"

subsection \<open>SystemCore._validate_command\<close>

fun check_patterns :: "pattern list \<Rightarrow> string \<Rightarrow> exn + unit" where
  "check_patterns [] command = Inr ()"
| "check_patterns (pat # pats) command =
     (if re_search pat command
      then Inl (SecurityViolation (''Dangerous pattern detected: '' @ fst pat))
      else check_patterns pats command)"

definition path_allowed :: "rules \<Rightarrow> string \<Rightarrow> bool" where
  "path_allowed r arg = list_ex (\<lambda>a. prefix a (path_str arg)) (allowed r)"

fun check_paths :: "rules \<Rightarrow> string list \<Rightarrow> exn + unit" where
  "check_paths r [] = Inr ()"
| "check_paths r (arg # args) =
     (if prefix ''/'' arg \<and> \<not> path_allowed r arg
      then Inl (SecurityViolation (''Path not allowed: '' @ path_str arg))
      else check_paths r args)"

definition validate_command :: "rules \<Rightarrow> string \<Rightarrow> exn + unit" where
  "validate_command r command =
     (case shlex_split command of
        Inl e \<Rightarrow> Inl e
      | Inr cmd_parts \<Rightarrow>
          if cmd_parts = [] then Inl (SecurityViolation ''Empty command'')
          else
            let base_cmd = path_name (hd cmd_parts) in
            if base_cmd \<in> set (blocklist r)
            then Inl (SecurityViolation (''Command '' @ [squote] @ base_cmd @ [squote] @ '' is blocked''))
            else
              (case check_patterns dangerous_patterns command of
                 Inl e \<Rightarrow> Inl e
               | Inr u \<Rightarrow> check_paths r (tl cmd_parts)))"

subsection \<open>SystemCore.execute_command\<close>

text \<open>
  What the operating system answers to \<^verbatim>\<open>create_subprocess_exec(*cmd_args)\<close> followed
  by \<^verbatim>\<open>communicate()\<close> under the timeout: the launch raises, the process exits with a
  return code and two outputs, or the wait times out. An output is \<open>Inr\<close> of its decoded
  text, or \<open>Inl\<close> of the message of the error that \<^verbatim>\<open>decode()\<close> raises.
\<close>

datatype proc_outcome =
    SpawnError string
  | Exited int "string + string" "string + string"
  | TimedOut

text \<open>How a child process is started: directly from an argument vector, or by a shell.\<close>

datatype launch = Exec "string list" | Shell string

record exec_result =
  res_status :: string
  return_code :: "int option"
  stdout :: "string option"
  stderr :: "string option"
  error :: "string option"

type_synonym exec_context = "(string \<times> string) list"

record cmd_record =
  timestamp :: nat
  command :: string
  cmd_context :: "exec_context option"
  cmd_status :: string
  cmd_result :: "exec_result option"

text \<open>
  The state of a \<^verbatim>\<open>SystemCore\<close>: its \<^verbatim>\<open>command_history\<close>, and the child
  processes it has asked the operating system to start, in order.
\<close>

record system_core =
  command_history :: "cmd_record list"
  launched :: "launch list"

fun show_nat :: "nat \<Rightarrow> string" where
  "show_nat n =
     (if n < 10 then [''0123456789'' ! n]
      else show_nat (n div 10) @ [''0123456789'' ! (n mod 10)])"

definition show_int :: "int \<Rightarrow> string" where
  "show_int i = (if i < 0 then ''-'' @ show_nat (nat (- i)) else show_nat (nat i))"

definition error_result :: "string \<Rightarrow> string \<Rightarrow> exec_result" where
  "error_result st msg =
     \<lparr> res_status = st, return_code = None, stdout = None, stderr = None, error = Some msg \<rparr>"

definition update_record :: "nat \<Rightarrow> exec_result \<Rightarrow> system_core \<Rightarrow> system_core" where
  "update_record idx result s =
     s \<lparr> command_history :=
           (command_history s)
             [idx := (command_history s ! idx)
                       \<lparr> cmd_status := res_status result, cmd_result := Some result \<rparr>] \<rparr>"

definition execute_command ::
  "rules \<Rightarrow> (string list \<Rightarrow> proc_outcome) \<Rightarrow> nat \<Rightarrow> string \<Rightarrow> exec_context option
     \<Rightarrow> system_core \<Rightarrow> exec_result \<times> system_core" where
  "execute_command r os now cmd ctx s =
     (case validate_command r cmd of
        Inl (SecurityViolation m) \<Rightarrow> (error_result ''security_violation'' m, s)
      | Inl e \<Rightarrow> (error_result ''error'' (str_exn e), s)
      | Inr u \<Rightarrow>
         (case shlex_split cmd of
            Inl e \<Rightarrow> (error_result ''error'' (str_exn e), s)
          | Inr cmd_args \<Rightarrow>
             let idx = length (command_history s);
                 cmd_rec = \<lparr> timestamp = now, command = cmd, cmd_context = ctx,
                            cmd_status = ''pending'', cmd_result = None \<rparr>;
                 s1 = s \<lparr> command_history := command_history s @ [cmd_rec] \<rparr>;
                 s2 = s1 \<lparr> launched := launched s1 @ [Exec cmd_args] \<rparr>
             in (case os cmd_args of
                   SpawnError m \<Rightarrow> (error_result ''error'' m, s2)
                 | Exited rc out err \<Rightarrow>
                     (case out of
                        Inl m \<Rightarrow> (error_result ''error'' m, s2)
                      | Inr so \<Rightarrow>
                         (case err of
                            Inl m \<Rightarrow> (error_result ''error'' m, s2)
                          | Inr se \<Rightarrow>
                             let result =
                                   \<lparr> res_status = (if rc = 0 then ''success'' else ''error''),
                                     return_code = Some rc, stdout = Some so,
                                     stderr = Some se, error = None \<rparr>
                             in (result, update_record idx result s2)))
                 | TimedOut \<Rightarrow>
                     let result =
                           error_result ''timeout''
                             (''Command execution timed out after '' @ show_int (runtime r)
                                @ '' seconds'')
                     in (result, update_record idx result s2))))"

section \<open>Task planning (jarvis/core/planner.py)\<close>

record task_step =
  action :: string
  thought :: string
  observation :: "string option"
  reflection :: "string option"
  status :: string

datatype TaskStatus = PENDING | IN_PROGRESS | COMPLETED | FAILED | BLOCKED

text \<open>One entry of \<^verbatim>\<open>results\<close>, and the dictionary that \<^verbatim>\<open>execute_task\<close> returns.\<close>

record step_result =
  r_action :: string
  r_thought :: string
  r_observation :: string
  r_reflection :: string

datatype task_result = Success "step_result list" | Failure string

fun result_status :: "task_result \<Rightarrow> string" where
  "result_status (Success rs) = ''success''"
| "result_status (Failure e) = ''failed''"

type_synonym active_tasks = "string \<rightharpoonup> task_step list"

text \<open>
  A \<^verbatim>\<open>TaskStep\<close> is an object that \<^verbatim>\<open>execute_task\<close> changes in place, and one
  object can stand at several positions of a step list (a replanner may hand back a step
  that is listed already). A Python list holds references, so where steps are changed a
  step list is a list of object identities.
\<close>

type_synonym ref = nat

subsection \<open>The planning, execution and reflection methods as the code has them\<close>

definition create_plan :: "string \<Rightarrow> exec_context \<Rightarrow> task_step list" where
  "create_plan thought_text ctx = []"

definition execute_step :: "task_step \<Rightarrow> string" where
  "execute_step step = ''Step execution result''"

definition reflect_on_step :: "string \<Rightarrow> string" where
  "reflect_on_step result = ''Step reflection''"

definition needs_replanning :: "string \<Rightarrow> bool" where
  "needs_replanning reflection_text = False"

definition replan_task :: "string \<Rightarrow> step_result list \<Rightarrow> ref list" where
  "replan_task task_id previous_results = []"

text \<open>
  \<^verbatim>\<open>_generate_task_id\<close> formats the current time; \<open>stamp\<close> is that formatted time.
\<close>

definition generate_task_id :: "string \<Rightarrow> string" where
  "generate_task_id stamp = ''task_'' @ stamp"

subsection \<open>TaskManager.create_task\<close>

text \<open>
  \<^verbatim>\<open>_generate_thought\<close> asks the language model, which answers with a text or raises:
  it is the parameter \<open>llm\<close>. The planner is a parameter as well, so that statements can
  range over planners; \<open>create_task\<close> is the code's own, with \<^verbatim>\<open>_create_plan\<close>.
  An exception is logged and raised again, the task store as it was.
\<close>

definition create_task_with ::
  "(string \<Rightarrow> exec_context \<Rightarrow> exn + task_step list)
     \<Rightarrow> (string \<Rightarrow> exec_context \<Rightarrow> exn + string)
     \<Rightarrow> string \<Rightarrow> string \<Rightarrow> exec_context \<Rightarrow> active_tasks \<Rightarrow> (exn + string) \<times> active_tasks" where
  "create_task_with planner llm stamp task_description ctx tasks =
     (let task_id = generate_task_id stamp in
      case llm task_description ctx of
        Inl e \<Rightarrow> (Inl e, tasks)
      | Inr initial_thought \<Rightarrow>
         (case planner initial_thought ctx of
            Inl e \<Rightarrow> (Inl e, tasks)
          | Inr plan \<Rightarrow> (Inr task_id, tasks(task_id \<mapsto> plan))))"

definition create_task ::
  "(string \<Rightarrow> exec_context \<Rightarrow> exn + string)
     \<Rightarrow> string \<Rightarrow> string \<Rightarrow> exec_context \<Rightarrow> active_tasks \<Rightarrow> (exn + string) \<times> active_tasks" where
  "create_task = create_task_with (\<lambda>th ctx. Inr (create_plan th ctx))"


subsection \<open>TaskManager.execute_task\<close>

text \<open>
  The state of a \<^verbatim>\<open>TaskManager\<close> as \<^verbatim>\<open>execute_task\<close> sees it: the configuration
  it was built with (kept in \<^verbatim>\<open>self.config\<close>), the step list of every task as a list
  of object identities, and the current fields of every step object. An object that a
  replanner creates is an identity that no list holds so far, with the fields it is created
  with. \<open>replan_rounds\<close> counts the calls of \<^verbatim>\<open>_replan_task\<close>; the code keeps no such
  counter. \<open>stored_tasks\<close> is the state as \<^verbatim>\<open>create_task\<close> and
  \<^verbatim>\<open>get_task_status\<close>, which change no step, see it: at every position the current
  fields of the object there. Every task id is taken to have a list of its own.
\<close>

record task_manager =
  planner_config :: "(string \<times> int) list"
  task_lists :: "string \<rightharpoonup> ref list"
  objects :: "ref \<Rightarrow> task_step"
  replan_rounds :: nat

definition stored_tasks :: "task_manager \<Rightarrow> active_tasks" where
  "stored_tasks m = (\<lambda>task_id. map_option (map (objects m)) (task_lists m task_id))"

text \<open>
  The four methods the loop calls. Each returns a value or raises, and is taken to change
  neither a step nor the results list itself; what it returns may depend on its arguments
  only. The replanner returns a list of step objects, new ones or listed ones. \<open>code_oracle\<close> is what the code defines for the four.
\<close>

record oracles =
  exec_fn :: "task_step \<Rightarrow> exn + string"
  reflect_fn :: "string \<Rightarrow> exn + string"
  needs_fn :: "string \<Rightarrow> exn + bool"
  replan_fn :: "string \<Rightarrow> step_result list \<Rightarrow> exn + ref list"

definition code_oracle :: oracles where
  "code_oracle =
     \<lparr> exec_fn = (\<lambda>step. Inr (execute_step step)),
       reflect_fn = (\<lambda>result. Inr (reflect_on_step result)),
       needs_fn = (\<lambda>reflection_text. Inr (needs_replanning reflection_text)),
       replan_fn = (\<lambda>task_id results. Inr (replan_task task_id results)) \<rparr>"

definition complete_step :: "string \<Rightarrow> string \<Rightarrow> task_step \<Rightarrow> task_step" where
  "complete_step result reflection_text step =
     step \<lparr> observation := Some result, reflection := Some reflection_text,
            status := ''completed'' \<rparr>"

definition result_record :: "string \<Rightarrow> string \<Rightarrow> task_step \<Rightarrow> step_result" where
  "result_record result reflection_text step =
     \<lparr> r_action = action step, r_thought = thought step,
       r_observation = result, r_reflection = reflection_text \<rparr>"

text \<open>
  The \<^verbatim>\<open>for step in steps\<close> loop. Python's list iterator keeps an index \<open>i\<close> and
  stops when \<open>i\<close> reaches the current length, so steps appended by \<^verbatim>\<open>steps.extend\<close>
  during the loop are visited too, and the loop need not end: the result is an option,
  \<open>None\<close> when the loop runs forever. The three assignments change the object at
  position \<open>i\<close>, and with it every position that holds the same object. The list and the
  objects are those of the task manager, changed in place, so they are returned even when
  an exception ends the loop.
\<close>

partial_function (option) run_steps ::
  "oracles \<Rightarrow> string \<Rightarrow> nat \<Rightarrow> ref list \<Rightarrow> (ref \<Rightarrow> task_step) \<Rightarrow> nat \<Rightarrow> step_result list
     \<Rightarrow> ((exn + step_result list) \<times> ref list \<times> (ref \<Rightarrow> task_step) \<times> nat) option" where
  "run_steps orc task_id i steps objs rounds results =
     (if length steps \<le> i then Some (Inr results, steps, objs, rounds)
      else
        let r = steps ! i; step = objs r in
        case exec_fn orc step of
          Inl e \<Rightarrow> Some (Inl e, steps, objs, rounds)
        | Inr result \<Rightarrow>
           (case reflect_fn orc result of
              Inl e \<Rightarrow> Some (Inl e, steps, objs, rounds)
            | Inr reflection_text \<Rightarrow>
               let objs1 = objs(r := complete_step result reflection_text step);
                   results1 = results @ [result_record result reflection_text (objs1 r)]
               in (case needs_fn orc reflection_text of
                     Inl e \<Rightarrow> Some (Inl e, steps, objs1, rounds)
                   | Inr replan \<Rightarrow>
                      if replan then
                        (case replan_fn orc task_id results1 of
                           Inl e \<Rightarrow> Some (Inl e, steps, objs1, rounds + 1)
                         | Inr new_plan \<Rightarrow>
                             run_steps orc task_id (i + 1) (steps @ new_plan) objs1
                               (rounds + 1) results1)
                      else run_steps orc task_id (i + 1) steps objs1 rounds results1)))"

text \<open>
  What \<^verbatim>\<open>execute_task\<close> returns once the loop has ended, by its end or by an
  exception, and the state it leaves.
\<close>

definition finish_task ::
  "task_manager \<Rightarrow> string
     \<Rightarrow> (exn + step_result list) \<times> ref list \<times> (ref \<Rightarrow> task_step) \<times> nat
     \<Rightarrow> (exn + task_result) \<times> task_manager" where
  "finish_task m task_id run =
     (case run of (out, steps, objs, rounds) \<Rightarrow>
        (Inr (case out of Inl e \<Rightarrow> Failure (str_exn e) | Inr results \<Rightarrow> Success results),
         m \<lparr> task_lists := (task_lists m)(task_id \<mapsto> steps), objects := objs,
             replan_rounds := rounds \<rparr>))"

definition execute_task_with ::
  "oracles \<Rightarrow> string \<Rightarrow> task_manager \<Rightarrow> ((exn + task_result) \<times> task_manager) option" where
  "execute_task_with orc task_id m =
     (case task_lists m task_id of
        None \<Rightarrow> Some (Inl (ValueError (''Task '' @ task_id @ '' not found'')), m)
      | Some steps \<Rightarrow>
          map_option (finish_task m task_id)
            (run_steps orc task_id 0 steps (objects m) (replan_rounds m) []))"

definition execute_task ::
  "string \<Rightarrow> task_manager \<Rightarrow> ((exn + task_result) \<times> task_manager) option" where
  "execute_task = execute_task_with code_oracle"


subsection \<open>TaskManager.get_task_status\<close>

definition count_completed :: "task_step list \<Rightarrow> nat" where
  "count_completed steps = length (filter (\<lambda>step. status step = ''completed'') steps)"

definition get_task_status :: "string \<Rightarrow> active_tasks \<Rightarrow> (exn + TaskStatus) \<times> active_tasks" where
  "get_task_status task_id tasks =
     (case tasks task_id of
        None \<Rightarrow> (Inl (ValueError (''Task '' @ task_id @ '' not found'')), tasks)
      | Some steps \<Rightarrow>
          if steps = [] then (Inr PENDING, tasks)
          else
            let completed = count_completed steps; total = length steps in
            if completed = 0 then (Inr PENDING, tasks)
            else if completed = total then (Inr COMPLETED, tasks)
            else (Inr IN_PROGRESS, tasks))"

section \<open>Sample configurations and inputs\<close>

text \<open>
  A \<^verbatim>\<open>SystemCore\<close> built from a configuration without any of the three keys, before
  its first command; an operating system on which every process exits at once with code 0
  and no output; and a command with a quote that is never closed.
\<close>

definition default_rules :: rules where
  "default_rules =
     load_security_rules \<lparr> command_blocklist = None, allowed_paths = None, max_runtime = None \<rparr>"

definition initial_core :: system_core where
  "initial_core = \<lparr> command_history = [], launched = [] \<rparr>"

definition silent_os :: "string list \<Rightarrow> proc_outcome" where
  "silent_os argv = Exited 0 (Inr []) (Inr [])"

definition unclosed_command :: string where
  "unclosed_command = ''echo '' @ [squote] @ ''a;b''"

text \<open>
  A language model that answers, and one that raises; and a task store holding one task whose
  first step has already been run.
\<close>

definition scripted_llm :: "string \<Rightarrow> exec_context \<Rightarrow> exn + string" where
  "scripted_llm task_description ctx = Inr ''First list the files, then report.''"

definition failing_llm :: "string \<Rightarrow> exec_context \<Rightarrow> exn + string" where
  "failing_llm task_description ctx = Inl (OtherError ''connection refused'')"

definition done_step :: task_step where
  "done_step = \<lparr> action = ''ls /tmp'', thought = ''look'', observation = Some ''old result'',
                  reflection = Some ''old reflection'', status = ''completed'' \<rparr>"

definition todo_step :: task_step where
  "todo_step = \<lparr> action = ''cat /tmp/a'', thought = ''read'', observation = None,
                  reflection = None, status = ''pending'' \<rparr>"

definition sample_tasks :: active_tasks where
  "sample_tasks = Map.empty(''task_1'' \<mapsto> [done_step, todo_step])"

text \<open>
  A task manager whose configuration asks for at most one replanning round, with the same
  task as \<open>sample_tasks\<close>: object 0 is the step already run, every other object a step
  still to run. A second one in which one object stands at both positions of the list.
  Then replanning decisions and methods that differ from the code's: a decision that
  always asks for replanning; a replanner that hands back the listed object 1 every time;
  an execution method that reports the observation it finds in the step.
\<close>

definition sample_manager :: task_manager where
  "sample_manager =
     \<lparr> planner_config = [(''max_replanning_rounds'', 1)],
       task_lists = Map.empty(''task_1'' \<mapsto> [0, 1]),
       objects = (\<lambda>r. if r = 0 then done_step else todo_step),
       replan_rounds = 0 \<rparr>"

definition shared_manager :: task_manager where
  "shared_manager = sample_manager \<lparr> task_lists := Map.empty(''task_1'' \<mapsto> [1, 1]) \<rparr>"

definition eager_oracle :: oracles where
  "eager_oracle = code_oracle \<lparr> needs_fn := (\<lambda>reflection_text. Inr True) \<rparr>"

definition insistent_oracle :: oracles where
  "insistent_oracle = eager_oracle \<lparr> replan_fn := (\<lambda>task_id results. Inr [1]) \<rparr>"

definition looking_oracle :: oracles where
  "looking_oracle =
     code_oracle \<lparr> exec_fn := (\<lambda>step.
        Inr (''saw:'' @ (case observation step of None \<Rightarrow> ''none'' | Some text \<Rightarrow> text))) \<rparr>"

text \<open>
  A step and a result record are of the same task when they have the same action and
  thought; they agree when, besides, the record's observation and reflection are the ones
  stored in the step and the step is marked completed.
\<close>

definition same_task :: "task_step \<Rightarrow> step_result \<Rightarrow> bool" where
  "same_task st r \<longleftrightarrow> action st = r_action r \<and> thought st = r_thought r"

definition agrees :: "task_step \<Rightarrow> step_result \<Rightarrow> bool" where
  "agrees st r \<longleftrightarrow>
     same_task st r \<and>
     observation st = Some (r_observation r) \<and> reflection st = Some (r_reflection r) \<and>
     status st = ''completed''"

text \<open>
  The first \<open>n\<close> positions of a step list are recorded in the results: the record at each
  position is of the same task as the step there, and the step agrees with the record at
  some position, not an earlier one, that holds the same object.
\<close>

definition recorded :: "nat \<Rightarrow> ref list \<Rightarrow> (ref \<Rightarrow> task_step) \<Rightarrow> step_result list \<Rightarrow> bool" where
  "recorded n steps objs results \<longleftrightarrow>
     (\<forall>j<n. same_task (objs (steps ! j)) (results ! j) \<and>
        (\<exists>k. j \<le> k \<and> k < n \<and> steps ! k = steps ! j \<and> agrees (objs (steps ! j)) (results ! k)))"


section \<open>Properties of command validation and execution\<close>

subsection \<open>Pattern search\<close>

lemma search_classes_append: "match_here p ys \<Longrightarrow> search_classes p (xs @ ys)"
proof (induction xs)
  case Nil
  then show ?case by (cases ys) simp_all
next
  case (Cons x xs)
  then show ?case by simp
qed

lemma match_here_extend: "match_here p u \<Longrightarrow> match_here p (u @ t)"
  by (induction p u rule: match_here.induct) simp_all

lemma search_classes_char: "c \<in> set s \<Longrightarrow> c \<in> set cl \<Longrightarrow> search_classes [cl] s"
proof -
  assume "c \<in> set s" and cl: "c \<in> set cl"
  then obtain xs ys where "s = xs @ c # ys" by (meson split_list)
  moreover have "match_here [cl] (c # ys)" using cl by simp
  ultimately show ?thesis using search_classes_append by blast
qed

lemma search_classes_sub: "sublist u s \<Longrightarrow> match_here p u \<Longrightarrow> search_classes p s"
  unfolding sublist_def using search_classes_append match_here_extend
  by (metis append.assoc)

lemma check_patterns_dangerous:
  assumes "(\<exists>c \<in> set cmd. c \<in> set '';|&<`'') \<or> sublist ''$('' cmd \<or> sublist ''>>'' cmd"
  shows "\<exists>m. check_patterns dangerous_patterns cmd = Inl (SecurityViolation m)"
proof -
  consider (chain) "\<exists>c \<in> set cmd. c \<in> set '';|&''" | (inp) "CHR ''<'' \<in> set cmd"
    | (tick) "CHR ''`'' \<in> set cmd" | (subst) "sublist ''$('' cmd" | (app) "sublist ''>>'' cmd"
    using assms by auto
  then show ?thesis
  proof cases
    case chain
    then obtain c where "c \<in> set cmd" "c \<in> set '';&|''" by auto
    then have "search_classes ['';&|''] cmd" by (rule search_classes_char)
    then show ?thesis by (simp add: dangerous_patterns_def re_search_def)
  next
    case inp
    then have "search_classes [''<''] cmd" by (rule search_classes_char) simp
    then show ?thesis by (simp add: dangerous_patterns_def re_search_def)
  next
    case tick
    then have "search_classes [''`''] cmd" by (rule search_classes_char) simp
    then show ?thesis by (simp add: dangerous_patterns_def re_search_def)
  next
    case subst
    then have "search_classes [''$'', ''(''] cmd" by (rule search_classes_sub) simp
    then show ?thesis by (simp add: dangerous_patterns_def re_search_def)
  next
    case app
    then have "search_classes [''>'', ''>&''] cmd" by (rule search_classes_sub) simp
    then show ?thesis by (simp add: dangerous_patterns_def re_search_def)
  qed
qed

subsection \<open>Validation and its two outcomes in execute_command\<close>

lemma validate_dangerous:
  assumes "(\<exists>c \<in> set cmd. c \<in> set '';|&<`'') \<or> sublist ''$('' cmd \<or> sublist ''>>'' cmd"
  shows "case shlex_split cmd of
           Inl e \<Rightarrow> validate_command r cmd = Inl e
         | Inr ts \<Rightarrow> (\<exists>m. validate_command r cmd = Inl (SecurityViolation m))"
  using check_patterns_dangerous [OF assms]
  by (auto simp: validate_command_def Let_def split: sum.splits)

lemma shlex_split_error: "shlex_split cmd = Inl e \<Longrightarrow> \<exists>m. e = ValueError m"
  by (auto simp: shlex_split_def split: sum.splits)

lemma validate_ok_tokens:
  "validate_command r cmd = Inr u \<Longrightarrow> \<exists>argv. shlex_split cmd = Inr argv \<and> argv \<noteq> []"
  by (auto simp: validate_command_def Let_def split: sum.splits if_splits)

lemma execute_command_rejected:
  "validate_command r cmd = Inl e \<Longrightarrow> snd (execute_command r os now cmd ctx s) = s"
  by (cases e) (simp_all add: execute_command_def)

lemma execute_command_accepted:
  assumes "validate_command r cmd = Inr u" and "shlex_split cmd = Inr argv"
  shows "launched (snd (execute_command r os now cmd ctx s)) = launched s @ [Exec argv]"
    and "\<exists>rec. command_history (snd (execute_command r os now cmd ctx s))
                  = command_history s @ [rec] \<and> command rec = cmd"
  using assms
  by (auto simp: execute_command_def Let_def update_record_def
           split: proc_outcome.splits sum.splits)

subsection \<open>The sample commands, evaluated\<close>

lemmas lex_defs =
  shlex_split_def squote_def whitespace_def quotes_def escapedquotes_def dquote_def
  backslash_def emit_def

lemma split_unclosed:
  "shlex_split unclosed_command = Inl (ValueError ''No closing quotation'')"
  by (simp add: unclosed_command_def lex_defs)

lemma split_chain: "shlex_split ''ls ; ls'' = Inr [''ls'', '';'', ''ls'']"
  by (simp add: lex_defs)

lemma split_echo: "shlex_split ''echo test'' = Inr [''echo'', ''test'']"
  by (simp add: lex_defs)

lemma split_redirect: "shlex_split ''echo a > b'' = Inr [''echo'', ''a'', ''>'', ''b'']"
  by (simp add: lex_defs)

lemma validate_chain:
  "validate_command default_rules ''ls ; ls''
     = Inl (SecurityViolation ''Dangerous pattern detected: [;&|]'')"
  by code_simp

lemma validate_echo: "validate_command default_rules ''echo test'' = Inr ()"
  by code_simp

lemma validate_redirect: "validate_command default_rules ''echo a > b'' = Inr ()"
  by code_simp

lemma path_str_tmpevil: "path_str ''/tmpevil'' = ''/tmpevil''"
  by code_simp

lemma path_str_etc: "path_str ''/etc/passwd'' = ''/etc/passwd''"
  by code_simp

subsection \<open>Dangerous characters\<close>

text \<open>
  C1, as the claim states it, fails: the command \<open>echo 'a;b\<close> contains \<open>;\<close>, yet
  \<^verbatim>\<open>shlex.split\<close> raises ValueError on the unclosed quote before any pattern is looked
  for, and the outcome has status \<open>error\<close>, not \<open>security_violation\<close>.
\<close>

theorem execute_command_unclosed_quote:
  "CHR '';'' \<in> set unclosed_command \<and>
   res_status (fst (execute_command default_rules silent_os 0 unclosed_command None initial_core))
     = ''error'' \<and>
   res_status (fst (execute_command default_rules silent_os 0 unclosed_command None initial_core))
     \<noteq> ''security_violation''"
proof -
  have "CHR '';'' \<in> set unclosed_command" by (simp add: unclosed_command_def)
  moreover have "validate_command default_rules unclosed_command
                   = Inl (ValueError ''No closing quotation'')"
    by (simp add: validate_command_def split_unclosed)
  ultimately show ?thesis by (simp add: execute_command_def error_result_def)
qed

text \<open>
  C1, amended: for every action string that contains \<open>;\<close>, \<open>|\<close>, \<open>&\<close>, \<open><\<close>, a
  backtick, the sequence \<open>$(\<close> or the sequence \<open>>>\<close>, execute_command leaves the executor
  as it was (no child process launched, no history entry), and the outcome has status
  \<open>security_violation\<close> when the string can be tokenized and status \<open>error\<close> when
  tokenizing it fails.
\<close>

theorem execute_command_dangerous:
  assumes "(\<exists>c \<in> set cmd. c \<in> set '';|&<`'') \<or> sublist ''$('' cmd \<or> sublist ''>>'' cmd"
  shows "snd (execute_command r os now cmd ctx s) = s \<and>
         res_status (fst (execute_command r os now cmd ctx s)) =
           (case shlex_split cmd of Inl e \<Rightarrow> ''error'' | Inr ts \<Rightarrow> ''security_violation'')"
proof (cases "shlex_split cmd")
  case (Inl e)
  then have v: "validate_command r cmd = Inl e"
    using validate_dangerous [OF assms, of r] by simp
  obtain m where "e = ValueError m" using shlex_split_error [OF Inl] by blast
  with v Inl show ?thesis by (simp add: execute_command_def error_result_def)
next
  case (Inr ts)
  then obtain m where "validate_command r cmd = Inl (SecurityViolation m)"
    using validate_dangerous [OF assms, of r] by auto
  with Inr show ?thesis by (simp add: execute_command_def error_result_def)
qed

text \<open>The amended C1 at the command \<open>ls ; ls\<close>.\<close>

theorem execute_command_dangerous_witness:
  "(\<exists>c \<in> set ''ls ; ls''. c \<in> set '';|&<`'') \<and>
   snd (execute_command default_rules silent_os 0 ''ls ; ls'' None initial_core) = initial_core \<and>
   res_status (fst (execute_command default_rules silent_os 0 ''ls ; ls'' None initial_core))
     = ''security_violation''"
proof -
  have h: "(\<exists>c \<in> set ''ls ; ls''. c \<in> set '';|&<`'') \<or> sublist ''$('' ''ls ; ls''
             \<or> sublist ''>>'' ''ls ; ls''"
    by simp
  show ?thesis
    using execute_command_dangerous [OF h, where r = default_rules and os = silent_os
        and now = 0 and ctx = None and s = initial_core]
    by (simp add: split_chain)
qed

text \<open>
  A single \<open>>\<close> is matched by none of the patterns (the second one asks for \<open>>>\<close> or
  \<open>>&\<close>): \<open>echo a > b\<close> passes validation and the process is launched with \<open>>\<close> as
  one of its arguments.
\<close>

theorem execute_command_lone_redirect:
  "CHR ''>'' \<in> set ''echo a > b'' \<and>
   res_status (fst (execute_command default_rules silent_os 0 ''echo a > b'' None initial_core))
     = ''success'' \<and>
   launched (snd (execute_command default_rules silent_os 0 ''echo a > b'' None initial_core))
     = [Exec [''echo'', ''a'', ''>'', ''b'']]"
  by (simp add: execute_command_def validate_redirect split_redirect silent_os_def
        initial_core_def update_record_def Let_def)

subsection \<open>The command history\<close>

text \<open>
  C2, as the claim states it, fails: \<open>ls ; ls\<close> is answered with \<open>security_violation\<close>
  and the history is as long as before.
\<close>

theorem execute_command_violation_unrecorded:
  "res_status (fst (execute_command default_rules silent_os 0 ''ls ; ls'' None initial_core))
     = ''security_violation'' \<and>
   command_history (snd (execute_command default_rules silent_os 0 ''ls ; ls'' None initial_core))
     = command_history initial_core"
  by (simp add: execute_command_def validate_chain error_result_def)

text \<open>
  C2, amended: an invocation of execute_command appends exactly one entry, for its command,
  to the history when the action passes validation (whatever happens to the process
  afterwards), and appends nothing when validation rejects the action or fails.
\<close>

theorem execute_command_history:
  "case validate_command r cmd of
     Inl e \<Rightarrow> command_history (snd (execute_command r os now cmd ctx s)) = command_history s
   | Inr u \<Rightarrow> (\<exists>rec. command_history (snd (execute_command r os now cmd ctx s))
                        = command_history s @ [rec] \<and> command rec = cmd)"
proof (cases "validate_command r cmd")
  case (Inl e)
  then show ?thesis using execute_command_rejected [OF Inl] by simp
next
  case (Inr u)
  then obtain argv where "shlex_split cmd = Inr argv" using validate_ok_tokens by blast
  with Inr show ?thesis using execute_command_accepted(2) [OF Inr] by simp
qed

text \<open>The amended C2 at the command \<open>echo test\<close>, which passes validation.\<close>

theorem execute_command_history_witness:
  "validate_command default_rules ''echo test'' = Inr () \<and>
   length (command_history
             (snd (execute_command default_rules silent_os 0 ''echo test'' None initial_core))) = 1"
  using execute_command_history [where r = default_rules and cmd = "''echo test''"
      and os = silent_os and now = 0 and ctx = None and s = initial_core]
  by (auto simp: validate_echo initial_core_def)

subsection \<open>Validation comes before any launch\<close>

text \<open>
  C3: execute_command launches nothing when validation does not accept the action; when it
  does, the one process launched is started directly from the tokens of the action (an
  \<open>Exec\<close> of the argument vector, never a \<open>Shell\<close> of a command line).
\<close>

theorem execute_command_validates_before_launch:
  "case validate_command r cmd of
     Inl e \<Rightarrow> launched (snd (execute_command r os now cmd ctx s)) = launched s
   | Inr u \<Rightarrow> (\<exists>argv. shlex_split cmd = Inr argv \<and> argv \<noteq> [] \<and>
                  launched (snd (execute_command r os now cmd ctx s)) = launched s @ [Exec argv])"
proof (cases "validate_command r cmd")
  case (Inl e)
  then show ?thesis using execute_command_rejected [OF Inl] by simp
next
  case (Inr u)
  then obtain argv where a: "shlex_split cmd = Inr argv" "argv \<noteq> []"
    using validate_ok_tokens by blast
  with Inr show ?thesis using execute_command_accepted(1) [OF Inr a(1)] by simp
qed

text \<open>C3 at an accepted command and at a rejected one.\<close>

theorem execute_command_validates_before_launch_witness:
  "launched (snd (execute_command default_rules silent_os 0 ''echo test'' None initial_core))
     = [Exec [''echo'', ''test'']] \<and>
   launched (snd (execute_command default_rules silent_os 0 ''ls ; ls'' None initial_core)) = []"
  using execute_command_validates_before_launch [where r = default_rules
      and cmd = "''echo test''" and os = silent_os and now = 0 and ctx = None and s = initial_core]
    execute_command_validates_before_launch [where r = default_rules
      and cmd = "''ls ; ls''" and os = silent_os and now = 0 and ctx = None and s = initial_core]
  by (simp add: validate_echo validate_chain split_echo initial_core_def)

subsection \<open>The allowed-path check\<close>

lemma check_paths_iff:
  "(check_paths r args = Inr ()) =
     (\<forall>arg \<in> set args. prefix ''/'' arg \<longrightarrow> (\<exists>a \<in> set (allowed r). prefix a (path_str arg)))"
  by (induction args) (auto simp: path_allowed_def list_ex_iff)

text \<open>
  C10: the path check accepts a list of arguments exactly when every argument that begins
  with \<open>/\<close> has a string form of which some allowed path is a string prefix; so, with
  \<open>/tmp\<close> allowed, \<open>/tmpevil\<close> and \<open>/tmp-other\<close> pass validation.
\<close>

theorem check_paths_prefix_test:
  "(check_paths r args = Inr ()) =
     (\<forall>arg \<in> set args. prefix ''/'' arg \<longrightarrow> (\<exists>a \<in> set (allowed r). prefix a (path_str arg))) \<and>
   allowed default_rules = [''/tmp''] \<and>
   validate_command default_rules ''cat /tmpevil'' = Inr () \<and>
   validate_command default_rules ''cat /tmp-other'' = Inr ()"
proof -
  have "allowed default_rules = [''/tmp'']"
    by (simp add: default_rules_def load_security_rules_def)
  moreover have "validate_command default_rules ''cat /tmpevil'' = Inr ()" by code_simp
  moreover have "validate_command default_rules ''cat /tmp-other'' = Inr ()" by code_simp
  ultimately show ?thesis using check_paths_iff by blast
qed

text \<open>C10 at an argument list that is accepted and at one that is rejected.\<close>

theorem check_paths_prefix_test_witness:
  "check_paths default_rules [''/tmpevil'', ''notes.txt''] = Inr () \<and>
   check_paths default_rules [''/etc/passwd''] \<noteq> Inr ()"
  using check_paths_prefix_test [of default_rules "[''/tmpevil'', ''notes.txt'']"]
    check_paths_prefix_test [of default_rules "[''/etc/passwd'']"]
  by (simp add: path_str_tmpevil path_str_etc)

section \<open>Properties of task planning and execution\<close>

subsection \<open>Creating a task\<close>

text \<open>
  C4, as the claim states it, fails: the code's planner yields no step at all, yet
  create_task returns a task id and registers it with an empty step list.
\<close>

theorem create_task_registers_empty_plan:
  "fst (create_task scripted_llm ''20250101_120000'' ''list files in /tmp'' [] Map.empty)
     = Inr ''task_20250101_120000'' \<and>
   snd (create_task scripted_llm ''20250101_120000'' ''list files in /tmp'' [] Map.empty)
     ''task_20250101_120000'' = Some []"
  by (simp add: create_task_def create_task_with_def scripted_llm_def create_plan_def
        generate_task_id_def Let_def)

text \<open>
  C4, amended: create_task fails, with the error raised, whenever the language model or the
  planner raises, and then the task store is unchanged; whenever the planner returns a step
  list, the empty list included, create_task succeeds and registers the new task id with
  that list. With the code's own planner the registered list is always empty.
\<close>

theorem create_task_outcomes:
  "(llm d ctx = Inl e \<longrightarrow> create_task_with planner llm stamp d ctx tasks = (Inl e, tasks)) \<and>
   (llm d ctx = Inr th \<and> planner th ctx = Inl e \<longrightarrow>
      create_task_with planner llm stamp d ctx tasks = (Inl e, tasks)) \<and>
   (llm d ctx = Inr th \<and> planner th ctx = Inr plan \<longrightarrow>
      create_task_with planner llm stamp d ctx tasks
        = (Inr (generate_task_id stamp), tasks(generate_task_id stamp \<mapsto> plan))) \<and>
   (llm d ctx = Inr th \<longrightarrow>
      create_task llm stamp d ctx tasks
        = (Inr (generate_task_id stamp), tasks(generate_task_id stamp \<mapsto> [])))"
  by (simp add: create_task_def create_task_with_def create_plan_def Let_def)

text \<open>The amended C4 at a language model that raises and at a planner with one step.\<close>

theorem create_task_outcomes_witness:
  "create_task failing_llm ''20250101_120000'' ''list files in /tmp'' [] sample_tasks
     = (Inl (OtherError ''connection refused''), sample_tasks) \<and>
   create_task_with (\<lambda>th ctx. Inr [todo_step]) scripted_llm ''20250101_120000''
       ''list files in /tmp'' [] Map.empty
     = (Inr ''task_20250101_120000'', [''task_20250101_120000'' \<mapsto> [todo_step]])"
  using create_task_outcomes [where llm = failing_llm and d = "''list files in /tmp''"
      and ctx = "[]" and e = "OtherError ''connection refused''"
      and stamp = "''20250101_120000''" and tasks = sample_tasks
      and planner = "\<lambda>th ctx. Inr (create_plan th ctx)"]
    create_task_outcomes [where llm = scripted_llm and d = "''list files in /tmp''"
      and ctx = "[]" and th = "''First list the files, then report.''"
      and stamp = "''20250101_120000''" and tasks = Map.empty
      and planner = "\<lambda>th ctx. Inr [todo_step]" and plan = "[todo_step]"]
  by (simp add: failing_llm_def scripted_llm_def create_task_def generate_task_id_def)


subsection \<open>The loop with the code's own execution, reflection and replanning\<close>

lemma result_record_complete:
  "result_record a b (complete_step c d s) = result_record a b s"
  by (simp add: result_record_def complete_step_def)

lemma complete_step_twice:
  "complete_step a b (complete_step a b s) = complete_step a b s"
  by (simp add: complete_step_def)

lemma run_steps_code:
  assumes orc: "exec_fn orc = (\<lambda>s. Inr (execute_step s))"
      "reflect_fn orc = (\<lambda>t. Inr (reflect_on_step t))"
      "needs_fn orc = (\<lambda>t. Inr b)"
      "replan_fn orc = (\<lambda>t rs. Inr (replan_task t rs))"
  shows "i \<le> length steps \<Longrightarrow>
   run_steps orc tid i steps objs rounds results =
     Some (Inr (results @
                  map (\<lambda>r. result_record ''Step execution result'' ''Step reflection'' (objs r))
                    (drop i steps)),
           steps,
           (\<lambda>r. if r \<in> set (drop i steps)
                then complete_step ''Step execution result'' ''Step reflection'' (objs r)
                else objs r),
           rounds + (if b then length steps - i else 0))"
proof (induction "length steps - i" arbitrary: i objs rounds results)
  case 0
  then show ?case by (subst run_steps.simps) simp
next
  case (Suc n)
  then have lt: "i < length steps" by simp
  let ?r = "steps ! i"
  let ?c = "complete_step ''Step execution result'' ''Step reflection''"
  let ?rr = "result_record ''Step execution result'' ''Step reflection''"
  let ?objs1 = "objs(?r := ?c (objs ?r))"
  have n: "n = length steps - (i + 1)" using Suc.hyps(2) by simp
  have le: "i + 1 \<le> length steps" using lt by simp
  have d: "drop i steps = ?r # drop (Suc i) steps" using lt by (simp add: Cons_nth_drop_Suc)
  have rr: "?rr (?objs1 r') = ?rr (objs r')" for r'
    by (simp add: result_record_complete)
  have hp: "(\<lambda>r'. if r' \<in> set (drop (Suc i) steps) then ?c (?objs1 r') else ?objs1 r')
          = (\<lambda>r'. if r' \<in> set (drop i steps) then ?c (objs r') else objs r')"
    by (auto simp: d complete_step_twice fun_eq_iff)
  have ih: "run_steps orc tid (i + 1) steps ?objs1 rounds' results' =
     Some (Inr (results' @ map (\<lambda>r. ?rr (?objs1 r)) (drop (i + 1) steps)), steps,
           (\<lambda>r. if r \<in> set (drop (i + 1) steps) then ?c (?objs1 r) else ?objs1 r),
           rounds' + (if b then length steps - (i + 1) else 0))" for rounds' results'
    by (rule Suc.hyps(1) [OF n le])
  have tail: "map (\<lambda>r. ?rr (?objs1 r)) (drop (Suc i) steps) = map (\<lambda>r. ?rr (objs r)) (drop (Suc i) steps)"
    using rr by simp
  have ar: "Suc (rounds + length steps - Suc i) = rounds + length steps - i"
    using lt by simp
  show ?case
    apply (subst run_steps.simps)
    using lt ih hp tail ar
    by (simp add: orc execute_step_def reflect_on_step_def replan_task_def Let_def d
          result_record_complete)
qed

lemma execute_task_code:
  assumes "task_lists m tid = Some steps"
  shows "execute_task_with code_oracle tid m =
     Some (Inr (Success (map (\<lambda>r. result_record ''Step execution result'' ''Step reflection''
                                     (objects m r)) steps)),
           m \<lparr> objects := (\<lambda>r. if r \<in> set steps
                  then complete_step ''Step execution result'' ''Step reflection'' (objects m r)
                  else objects m r) \<rparr>)"
proof -
  have "run_steps code_oracle tid 0 steps (objects m) (replan_rounds m) [] =
     Some (Inr ([] @ map (\<lambda>r. result_record ''Step execution result'' ''Step reflection''
                                     (objects m r)) (drop 0 steps)), steps,
           (\<lambda>r. if r \<in> set (drop 0 steps)
                then complete_step ''Step execution result'' ''Step reflection'' (objects m r)
                else objects m r),
           replan_rounds m + (if False then length steps - 0 else 0))"
    by (rule run_steps_code) (simp_all add: code_oracle_def needs_replanning_def)
  with assms show ?thesis
    by (simp add: execute_task_with_def finish_task_def map_upd_triv)
qed


lemma sample_list: "task_lists sample_manager ''task_1'' = Some [0, 1]"
  by (simp add: sample_manager_def)

text \<open>
  C5, as the claim states it, fails: the first step of the sample task is already
  completed, and a run executes it again, so that the results hold a record for it.
\<close>

theorem execute_task_repeats_completed_step:
  "status done_step = ''completed'' \<and>
   stored_tasks sample_manager ''task_1'' = Some [done_step, todo_step] \<and>
   map_option fst (execute_task ''task_1'' sample_manager) =
     Some (Inr (Success
       [\<lparr> r_action = ''ls /tmp'', r_thought = ''look'',
           r_observation = ''Step execution result'', r_reflection = ''Step reflection'' \<rparr>,
        \<lparr> r_action = ''cat /tmp/a'', r_thought = ''read'',
           r_observation = ''Step execution result'', r_reflection = ''Step reflection'' \<rparr>]))"
  using execute_task_code [where m = sample_manager and tid = "''task_1''" and steps = "[0, 1]"]
  by (simp add: sample_list execute_task_def stored_tasks_def result_record_def)
     (simp add: sample_manager_def done_step_def todo_step_def)

text \<open>
  C5, amended: execute_task iterates over all the steps of the task in order, starting at
  the first step whatever its status; every step, an already completed one included, is
  executed, gets a result record and is marked completed.
\<close>

theorem execute_task_runs_every_step:
  assumes "task_lists m tid = Some steps"
  shows "execute_task tid m =
     Some (Inr (Success (map (\<lambda>r. result_record ''Step execution result'' ''Step reflection''
                                     (objects m r)) steps)),
           m \<lparr> objects := (\<lambda>r. if r \<in> set steps
                  then complete_step ''Step execution result'' ''Step reflection'' (objects m r)
                  else objects m r) \<rparr>) \<and>
   stored_tasks
       (m \<lparr> objects := (\<lambda>r. if r \<in> set steps
                  then complete_step ''Step execution result'' ''Step reflection'' (objects m r)
                  else objects m r) \<rparr>) tid =
     Some (map (\<lambda>r. complete_step ''Step execution result'' ''Step reflection'' (objects m r))
             steps)"
  using assms execute_task_code [where m = m and tid = tid and steps = steps]
  by (simp add: execute_task_def stored_tasks_def)

text \<open>The amended C5 at the sample task.\<close>

theorem execute_task_runs_every_step_witness:
  "task_lists sample_manager ''task_1'' = Some [0, 1] \<and>
   map_option (\<lambda>out. map_option (map status) (stored_tasks (snd out) ''task_1''))
       (execute_task ''task_1'' sample_manager)
     = Some (Some [''completed'', ''completed''])"
  using execute_task_runs_every_step [where m = sample_manager and tid = "''task_1''"
      and steps = "[0, 1]"]
  by (simp add: sample_list complete_step_def)

subsection \<open>Replanning and termination\<close>





text \<open>
  With a replanner that supplies a step at every round, under the same decision, the loop
  does not end: this is why its result is an option.
\<close>

lemma run_steps_insistent:
  "run_steps orc tid i steps objs rounds results = Some y \<Longrightarrow>
     \<not> (orc = insistent_oracle \<and> i < length steps)"
proof (induction orc tid i steps objs rounds results y
         rule: run_steps.raw_induct[rotated 1, consumes 1])
  case (1 run orc tid i steps objs rounds results y)
  note IH = 1(1) and body = 1(2)
  show ?case
  proof
    assume a: "orc = insistent_oracle \<and> i < length steps"
    with body obtain s1 o1 n1 r1 where "run orc tid (i + 1) s1 o1 n1 r1 = Some y"
      and "i + 1 < length s1"
      by (auto simp: insistent_oracle_def eager_oracle_def code_oracle_def Let_def
               split: sum.splits if_splits)
    with IH a show False by blast
  qed
qed

theorem execute_task_growing_plan:
  "execute_task_with insistent_oracle ''task_1'' sample_manager = None"
proof -
  have "run_steps insistent_oracle ''task_1'' 0 [0, 1] (objects sample_manager)
          (replan_rounds sample_manager) [] = None"
    using run_steps_insistent [of insistent_oracle "''task_1''" 0 "[0, 1]"
        "objects sample_manager" "replan_rounds sample_manager" "[]"]
    by (cases "run_steps insistent_oracle ''task_1'' 0 [0, 1] (objects sample_manager)
          (replan_rounds sample_manager) []") auto
  then show ?thesis by (simp add: execute_task_with_def sample_list)
qed

subsection \<open>Results of a successful run\<close>

lemma recorded_step:
  assumes rec: "recorded i steps objs results" and lt: "i < length steps"
    and len: "length results = i"
  shows "recorded (i + 1) (steps @ new_plan)
           (objs(steps ! i := complete_step result rtext (objs (steps ! i))))
           (results @ [result_record result rtext
                         ((objs(steps ! i := complete_step result rtext (objs (steps ! i))))
                            (steps ! i))])"
    (is "recorded _ ?steps1 ?objs1 ?res1")
  unfolding recorded_def
proof (intro allI impI)
  fix j assume j: "j < i + 1"
  have st: "?steps1 ! n = steps ! n" if "n \<le> i" for n
    using that lt by (simp add: nth_append)
  have last: "?res1 ! i = result_record result rtext (?objs1 (steps ! i))"
    using len by (simp add: nth_append)
  have old: "?res1 ! n = results ! n" if "n < i" for n
    using that len by (simp add: nth_append)
  have new_agrees: "agrees (?objs1 (steps ! i)) (?res1 ! i)"
    unfolding last by (simp add: agrees_def same_task_def complete_step_def result_record_def)
  show "same_task (?objs1 (?steps1 ! j)) (?res1 ! j) \<and>
        (\<exists>k. j \<le> k \<and> k < i + 1 \<and> ?steps1 ! k = ?steps1 ! j \<and>
             agrees (?objs1 (?steps1 ! j)) (?res1 ! k))"
  proof (cases "j = i")
    case True
    have "same_task (?objs1 (?steps1 ! i)) (?res1 ! i)"
      using new_agrees st [of i] by (simp add: agrees_def)
    moreover have "i \<le> i \<and> i < i + 1 \<and> ?steps1 ! i = ?steps1 ! i \<and>
                   agrees (?objs1 (?steps1 ! i)) (?res1 ! i)"
      using new_agrees st [of i] by simp
    then have "\<exists>k. i \<le> k \<and> k < i + 1 \<and> ?steps1 ! k = ?steps1 ! i \<and>
                   agrees (?objs1 (?steps1 ! i)) (?res1 ! k)"
      by (rule exI [of _ i])
    ultimately show ?thesis unfolding True by (rule conjI)
  next
    case False
    then have ji: "j < i" using j by simp
    from rec ji obtain k where same: "same_task (objs (steps ! j)) (results ! j)"
      and k: "j \<le> k" "k < i" "steps ! k = steps ! j" "agrees (objs (steps ! j)) (results ! k)"
      unfolding recorded_def by blast
    have sj: "?steps1 ! j = steps ! j" using st [of j] ji by simp
    have rj: "?res1 ! j = results ! j" using old [OF ji] .
    show ?thesis
    proof (cases "steps ! j = steps ! i")
      case True
      have "same_task (?objs1 (?steps1 ! j)) (?res1 ! j)"
        unfolding sj rj using same True by (simp add: same_task_def complete_step_def)
      moreover have "j \<le> i \<and> i < i + 1 \<and> ?steps1 ! i = ?steps1 ! j \<and>
                     agrees (?objs1 (?steps1 ! j)) (?res1 ! i)"
        unfolding sj using new_agrees st [of i] ji True by simp
      then have "\<exists>k. j \<le> k \<and> k < i + 1 \<and> ?steps1 ! k = ?steps1 ! j \<and>
                     agrees (?objs1 (?steps1 ! j)) (?res1 ! k)"
        by (rule exI [of _ i])
      ultimately show ?thesis by (rule conjI)
    next
      case False
      then have un: "?objs1 (steps ! j) = objs (steps ! j)" by simp
      have "same_task (?objs1 (?steps1 ! j)) (?res1 ! j)"
        unfolding sj rj un using same .
      moreover have "j \<le> k \<and> k < i + 1 \<and> ?steps1 ! k = ?steps1 ! j \<and>
            agrees (?objs1 (?steps1 ! j)) (?res1 ! k)"
        unfolding sj un using k st [of k] old [of k] by simp
      then have "\<exists>k. j \<le> k \<and> k < i + 1 \<and> ?steps1 ! k = ?steps1 ! j \<and>
                     agrees (?objs1 (?steps1 ! j)) (?res1 ! k)"
        by (rule exI [of _ k])
      ultimately show ?thesis by (rule conjI)
    qed
  qed
qed

lemma run_steps_success:
  "run_steps orc tid i steps objs rounds results = Some y \<Longrightarrow>
     i \<le> length steps \<and> length results = i \<and> recorded i steps objs results \<longrightarrow>
     (\<forall>rs steps' objs' rounds'. y = (Inr rs, steps', objs', rounds') \<longrightarrow>
        length rs = length steps' \<and> recorded (length steps') steps' objs' rs)"
proof (induction orc tid i steps objs rounds results y
         rule: run_steps.raw_induct[rotated 1, consumes 1])
  case (1 run orc tid i steps objs rounds results y)
  note IH = 1(1) and body = 1(2)
  show ?case
  proof (intro impI allI, elim conjE)
    fix rs steps' objs' rounds'
    assume le: "i \<le> length steps" and len: "length results = i"
      and inv: "recorded i steps objs results" and y: "y = (Inr rs, steps', objs', rounds')"
    show "length rs = length steps' \<and> recorded (length steps') steps' objs' rs"
    proof (cases "length steps \<le> i")
      case True
      with body y le len inv show ?thesis by auto
    next
      case False
      then have lt: "i < length steps" by simp
      from body False y obtain result rtext where
        ex: "exec_fn orc (objs (steps ! i)) = Inr result"
        and rf: "reflect_fn orc result = Inr rtext"
        by (auto simp: Let_def split: sum.splits if_splits)
      let ?o1 = "objs(steps ! i := complete_step result rtext (objs (steps ! i)))"
      let ?r1 = "results @ [result_record result rtext (?o1 (steps ! i))]"
      have len1: "length ?r1 = i + 1" using len by simp
      from body False ex rf y consider
          (a) n1 where "run orc tid (i + 1) steps ?o1 n1 ?r1 = Some y"
        | (b) new_plan n1 where "run orc tid (i + 1) (steps @ new_plan) ?o1 n1 ?r1 = Some y"
        by (auto simp: Let_def split: sum.splits if_splits)
      then obtain new_plan n1 where
        run: "run orc tid (i + 1) (steps @ new_plan) ?o1 n1 ?r1 = Some y"
      proof cases
        case a
        then have "run orc tid (i + 1) (steps @ []) ?o1 n1 ?r1 = Some y" by simp
        then show ?thesis by (rule that)
      next
        case b
        then show ?thesis by (rule that)
      qed
      have inv1: "recorded (i + 1) (steps @ new_plan) ?o1 ?r1"
        by (rule recorded_step [OF inv lt len])
      have "i + 1 \<le> length (steps @ new_plan)" using lt by simp
      with IH [OF run] len1 inv1 y show ?thesis by blast
    qed
  qed
qed

lemma recorded_lists:
  assumes "length rs = length steps'" and "recorded (length steps') steps' objs' rs"
  shows "map r_action rs = map (\<lambda>r. action (objs' r)) steps'"
    and "map r_thought rs = map (\<lambda>r. thought (objs' r)) steps'"
    and "\<forall>r \<in> set steps'. status (objs' r) = ''completed''"
    and "\<forall>j<length steps'. \<exists>k. j \<le> k \<and> k < length steps' \<and> steps' ! k = steps' ! j \<and>
           observation (objs' (steps' ! j)) = Some (r_observation (rs ! k)) \<and>
           reflection (objs' (steps' ! j)) = Some (r_reflection (rs ! k))"
proof -
  have pt: "same_task (objs' (steps' ! j)) (rs ! j) \<and>
        (\<exists>k. j \<le> k \<and> k < length steps' \<and> steps' ! k = steps' ! j \<and>
             agrees (objs' (steps' ! j)) (rs ! k))" if "j < length steps'" for j
    using assms(2) that unfolding recorded_def by blast
  show "map r_action rs = map (\<lambda>r. action (objs' r)) steps'"
    using assms(1) pt by (auto simp: list_eq_iff_nth_eq same_task_def)
  show "map r_thought rs = map (\<lambda>r. thought (objs' r)) steps'"
    using assms(1) pt by (auto simp: list_eq_iff_nth_eq same_task_def)
  show "\<forall>r \<in> set steps'. status (objs' r) = ''completed''"
  proof
    fix r assume "r \<in> set steps'"
    then obtain j where j: "j < length steps'" "steps' ! j = r"
      by (auto simp: in_set_conv_nth)
    from pt [OF j(1)] obtain k where "agrees (objs' (steps' ! j)) (rs ! k)" by blast
    with j show "status (objs' r) = ''completed''" by (simp add: agrees_def)
  qed
  show "\<forall>j<length steps'. \<exists>k. j \<le> k \<and> k < length steps' \<and> steps' ! k = steps' ! j \<and>
           observation (objs' (steps' ! j)) = Some (r_observation (rs ! k)) \<and>
           reflection (objs' (steps' ! j)) = Some (r_reflection (rs ! k))"
    using pt unfolding agrees_def by blast
qed

lemma last_visit_distinct:
  assumes "distinct steps'" and "length rs = length steps'"
    and "\<forall>j<length steps'. \<exists>k. j \<le> k \<and> k < length steps' \<and> steps' ! k = steps' ! j \<and>
           observation (objs' (steps' ! j)) = Some (r_observation (rs ! k)) \<and>
           reflection (objs' (steps' ! j)) = Some (r_reflection (rs ! k))"
  shows "map (\<lambda>r. Some (r_observation r)) rs = map (\<lambda>r. observation (objs' r)) steps' \<and>
         map (\<lambda>r. Some (r_reflection r)) rs = map (\<lambda>r. reflection (objs' r)) steps'"
proof -
  have "observation (objs' (steps' ! j)) = Some (r_observation (rs ! j)) \<and>
        reflection (objs' (steps' ! j)) = Some (r_reflection (rs ! j))" if "j < length steps'" for j
  proof -
    from assms(3) that obtain k where k: "k < length steps'" "steps' ! k = steps' ! j"
      "observation (objs' (steps' ! j)) = Some (r_observation (rs ! k))"
      "reflection (objs' (steps' ! j)) = Some (r_reflection (rs ! k))" by blast
    then have "k = j" using assms(1) that by (simp add: nth_eq_iff_index_eq)
    with k show ?thesis by simp
  qed
  then show ?thesis using assms(2) by (simp add: list_eq_iff_nth_eq)
qed

lemma execute_task_with_success:
  assumes "execute_task_with orc tid m = Some (Inr (Success results), m')"
  shows "\<exists>steps steps' rounds'. task_lists m tid = Some steps \<and>
           task_lists m' tid = Some steps' \<and>
           run_steps orc tid 0 steps (objects m) (replan_rounds m) []
             = Some (Inr results, steps', objects m', rounds')"
proof (cases "task_lists m tid")
  case None
  with assms show ?thesis by (simp add: execute_task_with_def)
next
  case (Some steps)
  with assms obtain out steps' objs' rounds' where
    r: "run_steps orc tid 0 steps (objects m) (replan_rounds m) []
          = Some (out, steps', objs', rounds')"
    and f: "finish_task m tid (out, steps', objs', rounds') = (Inr (Success results), m')"
    by (auto simp: execute_task_with_def)
  from f have "out = Inr results" by (cases out) (simp_all add: finish_task_def)
  moreover from f have "task_lists m' tid = Some steps'" and "objects m' = objs'"
    by (auto simp: finish_task_def)
  ultimately show ?thesis using Some r by simp
qed

text \<open>
  C7: whenever execute_task returns with status \<open>success\<close>, whatever the execution,
  reflection, decision and replanning methods answered, the results have exactly one record
  for each position of the task's final step list, in step order (the record at a position
  has the action and the thought of the step there), and every step of the list is marked
  \<open>completed\<close>. The observation and the reflection stored in a step are those of the
  record at the last position where that step object stands; when no object stands at two
  positions they are those of the record at the step's own position.
\<close>

theorem execute_task_success_results:
  assumes "execute_task_with orc tid m = Some (Inr (Success results), m')"
  shows "\<exists>steps'. task_lists m' tid = Some steps' \<and>
           length results = length steps' \<and>
           map r_action results = map (\<lambda>r. action (objects m' r)) steps' \<and>
           map r_thought results = map (\<lambda>r. thought (objects m' r)) steps' \<and>
           (\<forall>r \<in> set steps'. status (objects m' r) = ''completed'') \<and>
           (\<forall>j<length steps'. \<exists>k. j \<le> k \<and> k < length steps' \<and> steps' ! k = steps' ! j \<and>
              observation (objects m' (steps' ! j)) = Some (r_observation (results ! k)) \<and>
              reflection (objects m' (steps' ! j)) = Some (r_reflection (results ! k))) \<and>
           (distinct steps' \<longrightarrow>
              map (\<lambda>r. Some (r_observation r)) results
                = map (\<lambda>r. observation (objects m' r)) steps' \<and>
              map (\<lambda>r. Some (r_reflection r)) results
                = map (\<lambda>r. reflection (objects m' r)) steps')"
proof -
  obtain steps steps' rounds' where t: "task_lists m' tid = Some steps'"
    and r: "run_steps orc tid 0 steps (objects m) (replan_rounds m) []
              = Some (Inr results, steps', objects m', rounds')"
    using execute_task_with_success [OF assms] by blast
  have "recorded 0 steps (objects m) []" by (simp add: recorded_def)
  with run_steps_success [OF r]
  have l: "length results = length steps'"
    and rc: "recorded (length steps') steps' (objects m') results"
    by simp_all
  note facts = recorded_lists [OF l rc]
  from last_visit_distinct [OF _ l facts(4)] t l facts show ?thesis by blast
qed

lemma run_shared:
  "\<exists>objs'. run_steps looking_oracle ''task_1'' 0 [1, 1] (objects shared_manager) 0 []
       = Some (Inr [\<lparr> r_action = ''cat /tmp/a'', r_thought = ''read'',
                      r_observation = ''saw:none'', r_reflection = ''Step reflection'' \<rparr>,
                    \<lparr> r_action = ''cat /tmp/a'', r_thought = ''read'',
                      r_observation = ''saw:saw:none'', r_reflection = ''Step reflection'' \<rparr>],
               [1, 1], objs', 0) \<and>
     observation (objs' 1) = Some ''saw:saw:none''"
  apply (subst run_steps.simps)
  apply (simp add: Let_def looking_oracle_def code_oracle_def shared_manager_def
           sample_manager_def todo_step_def complete_step_def result_record_def
           reflect_on_step_def needs_replanning_def)
  apply (subst run_steps.simps)
  apply (simp add: Let_def looking_oracle_def code_oracle_def complete_step_def
           result_record_def reflect_on_step_def needs_replanning_def)
  apply (subst run_steps.simps)
  apply simp
  done

text \<open>
  C7 at a list that holds one step object twice, with an execution method that reports
  the observation it finds: the second record sees the first one's observation, and the
  object keeps the second.
\<close>

theorem execute_task_success_results_witness:
  "\<exists>results m'.
     execute_task_with looking_oracle ''task_1'' shared_manager
       = Some (Inr (Success results), m') \<and>
     map r_observation results = [''saw:none'', ''saw:saw:none''] \<and>
     task_lists m' ''task_1'' = Some [1, 1] \<and>
     observation (objects m' 1) = Some ''saw:saw:none'' \<and>
     status (objects m' 1) = ''completed''"
proof -
  let ?R = "[\<lparr> r_action = ''cat /tmp/a'', r_thought = ''read'',
                      r_observation = ''saw:none'', r_reflection = ''Step reflection'' \<rparr>,
                    \<lparr> r_action = ''cat /tmp/a'', r_thought = ''read'',
                      r_observation = ''saw:saw:none'', r_reflection = ''Step reflection'' \<rparr>]"
  from run_shared obtain objs' where
    r: "run_steps looking_oracle ''task_1'' 0 [1, 1] (objects shared_manager) 0 []
          = Some (Inr ?R, [1, 1], objs', 0)"
    and o: "observation (objs' 1) = Some ''saw:saw:none''" by blast
  let ?M = "shared_manager \<lparr> task_lists := (task_lists shared_manager)(''task_1'' \<mapsto> [1, 1]),
              objects := objs', replan_rounds := 0 \<rparr>"
  have h: "execute_task_with looking_oracle ''task_1'' shared_manager = Some (Inr (Success ?R), ?M)"
    using r by (simp add: execute_task_with_def finish_task_def shared_manager_def
                  sample_manager_def)
  from execute_task_success_results [OF h] obtain steps' where
    "task_lists ?M ''task_1'' = Some steps'"
    "\<forall>r \<in> set steps'. status (objects ?M r) = ''completed''" by blast
  then have "status (objects ?M 1) = ''completed''" by auto
  with h o show ?thesis by (intro exI [of _ ?R] exI [of _ ?M]) simp
qed


subsection \<open>The replanning decision\<close>

text \<open>
  C8, as the claim states it, fails: for an outcome \<open>security_violation\<close> the replanning
  decision is \<open>False\<close>.
\<close>

theorem needs_replanning_security_violation:
  "\<not> needs_replanning (reflect_on_step ''security_violation'')"
  by (simp add: needs_replanning_def)

text \<open>
  C8, amended: the replanning decision of the code is \<open>False\<close> for every outcome, for
  \<open>security_violation\<close> and \<open>timeout\<close> as for a plain \<open>error\<close>.
\<close>

theorem needs_replanning_never:
  "\<not> needs_replanning (reflect_on_step outcome) \<and>
   needs_fn code_oracle reflection_text = Inr False"
  by (simp add: needs_replanning_def code_oracle_def)

text \<open>The amended C8 at the outcome \<open>timeout\<close>.\<close>

theorem needs_replanning_never_witness:
  "\<not> needs_replanning (reflect_on_step ''timeout'') \<and>
   needs_fn code_oracle ''Step reflection'' = Inr False"
  using needs_replanning_never [of "''timeout''" "''Step reflection''"] by simp

subsection \<open>The status of a task\<close>

lemma count_completed_zero:
  "(count_completed steps = 0) = (\<forall>st \<in> set steps. status st \<noteq> ''completed'')"
  by (auto simp: count_completed_def filter_empty_conv)

lemma count_completed_all:
  "(count_completed steps = length steps) = (\<forall>st \<in> set steps. status st = ''completed'')"
proof
  assume "count_completed steps = length steps"
  then show "\<forall>st \<in> set steps. status st = ''completed''"
    unfolding count_completed_def
    using length_filter_less [of _ steps "\<lambda>step. status step = ''completed''"] by fastforce
next
  assume "\<forall>st \<in> set steps. status st = ''completed''"
  then have "filter (\<lambda>step. status step = ''completed'') steps = steps"
    by (simp add: filter_id_conv)
  then show "count_completed steps = length steps" by (simp add: count_completed_def)
qed

text \<open>
  C9: get_task_status fails with a lookup error for an unknown id; for a registered task it
  is computed from the step list alone: \<open>PENDING\<close> if no step is completed, otherwise
  \<open>COMPLETED\<close> if all steps are, otherwise \<open>IN_PROGRESS\<close>. It leaves the task store as it
  was, so a call after any number of earlier calls returns what the first call returned.
\<close>

theorem get_task_status_computed:
  "(tasks tid = None \<longrightarrow>
      get_task_status tid tasks = (Inl (ValueError (''Task '' @ tid @ '' not found'')), tasks)) \<and>
   (tasks tid = Some steps \<longrightarrow>
      get_task_status tid tasks =
        (Inr (if \<forall>st \<in> set steps. status st \<noteq> ''completed'' then PENDING
              else if \<forall>st \<in> set steps. status st = ''completed'' then COMPLETED
              else IN_PROGRESS), tasks)) \<and>
   snd (get_task_status tid' tasks) = tasks \<and>
   get_task_status tid (snd (get_task_status tid' tasks)) = get_task_status tid tasks"
proof -
  have s: "snd (get_task_status t tasks) = tasks" for t
    by (simp add: get_task_status_def Let_def split: option.splits)
  have "tasks tid = Some steps \<Longrightarrow>
      get_task_status tid tasks =
        (Inr (if \<forall>st \<in> set steps. status st \<noteq> ''completed'' then PENDING
              else if \<forall>st \<in> set steps. status st = ''completed'' then COMPLETED
              else IN_PROGRESS), tasks)"
    using count_completed_zero [of steps] count_completed_all [of steps]
    by (simp add: get_task_status_def Let_def)
  moreover have "tasks tid = None \<Longrightarrow>
      get_task_status tid tasks = (Inl (ValueError (''Task '' @ tid @ '' not found'')), tasks)"
    by (simp add: get_task_status_def)
  ultimately show ?thesis using s by simp
qed

text \<open>C9 at the sample task, at an unknown id, and at a second call.\<close>

theorem get_task_status_computed_witness:
  "get_task_status ''task_1'' sample_tasks = (Inr IN_PROGRESS, sample_tasks) \<and>
   get_task_status ''task_2'' sample_tasks
     = (Inl (ValueError ''Task task_2 not found''), sample_tasks) \<and>
   get_task_status ''task_1'' (snd (get_task_status ''task_1'' sample_tasks))
     = (Inr IN_PROGRESS, sample_tasks)"
  using get_task_status_computed [where tasks = sample_tasks and tid = "''task_1''"
      and steps = "[done_step, todo_step]" and tid' = "''task_1''"]
    get_task_status_computed [where tasks = sample_tasks and tid = "''task_2''"
      and tid' = "''task_1''"]
  by (simp add: sample_tasks_def done_step_def todo_step_def)

end
